theory Spec2Isabelle
  imports Main "HOL-Library.Finite_Map"
begin

section \<open>Go slices\<close>

text \<open>
  A Go slice is a window on a backing array. The model keeps the three segments of that
  array apart: \<open>dead\<close> are the cells in front of the window (still held by the array,
  no longer reachable through the slice), \<open>live\<close> are the elements of the slice,
  front first, and \<open>spare\<close> counts the unused cells behind the window, so that
  \<open>len s = length (live s)\<close> and \<open>cap s = length (live s) + spare s\<close>.
  The queue is the only owner of its backing array (no slice escapes the package), so the
  array is part of the value. A slice with no cells at all, of length and capacity 0,
  stands both for \<^verbatim>\<open>nil\<close> and for \<^verbatim>\<open>make([]T, 0)\<close>: the two differ in the header's
  pointer only, which no function of the package reads.
\<close>

record 'a slice =
  dead :: "'a list"
  live :: "'a list"
  spare :: nat

definition nil_slice :: "'a slice" where
  "nil_slice = \<lparr>dead = [], live = [], spare = 0\<rparr>"

text \<open>\<^verbatim>\<open>make([]T, 0)\<close>\<close>

definition make_slice0 :: "'a slice" where
  "make_slice0 = \<lparr>dead = [], live = [], spare = 0\<rparr>"

definition len :: "'a slice \<Rightarrow> nat" where
  "len s = length (live s)"

definition cap :: "'a slice \<Rightarrow> nat" where
  "cap s = length (live s) + spare s"

text \<open>
  \<^verbatim>\<open>append(s, x)\<close>: with room behind the window the element is written into the same
  array; otherwise a new array is allocated and the elements of the slice (only those)
  are copied over. How much the runtime allocates is not part of the repository: it is the
  parameter \<open>newcap\<close> (old capacity, needed length), and never less than what is needed.
\<close>

definition append_slice :: "(nat \<Rightarrow> nat \<Rightarrow> nat) \<Rightarrow> 'a slice \<Rightarrow> 'a \<Rightarrow> 'a slice" where
  "append_slice newcap s x =
     (if 0 < spare s then s\<lparr>live := live s @ [x], spare := spare s - 1\<rparr>
      else \<lparr>dead = [], live = live s @ [x],
            spare = max (len s + 1) (newcap (cap s) (len s + 1)) - (len s + 1)\<rparr>)"

text \<open>
  \<^verbatim>\<open>s[1:]\<close> of a slice whose front element is \<open>e\<close> and whose other elements are
  \<open>es\<close>: the window moves on by one cell, the array stays, \<open>e\<close> stays in it.
\<close>

definition slice_from1 :: "'a slice \<Rightarrow> 'a \<Rightarrow> 'a list \<Rightarrow> 'a slice" where
  "slice_from1 s e es = s\<lparr>dead := dead s @ [e], live := es\<rparr>"


section \<open>Queue\<close>

text \<open>
  \<^verbatim>\<open>type Queue[T any] struct { elements []T; preventDuplicates bool; equalsFunc func(a, b T) bool }\<close>
  A \<^verbatim>\<open>func\<close> value may be \<^verbatim>\<open>nil\<close>: \<open>None\<close>. A function the caller supplies is taken to be
  pure and total. The queue has no lock; the model is of calls one after the other.
  (The source also holds an earlier version of the type, without the last two fields and
  without \<open>PreventDuplicates\<close>; its methods are the ones below with suppression off.)
\<close>

record 'a Queue =
  elements :: "'a slice"
  preventDuplicates :: bool
  equalsFunc :: "('a \<Rightarrow> 'a \<Rightarrow> bool) option"

text \<open>The error \<^verbatim>\<open>fmt.Errorf("type %T is not comparable", t)\<close>.\<close>

datatype error = NotComparable

text \<open>The run-time panic of calling a \<^verbatim>\<open>nil\<close> function.\<close>

datatype panic = NilFuncCall

text \<open>
  What the code takes from outside the package for an element type \<open>T\<close>: the zero value
  of \<open>T\<close> (\<^verbatim>\<open>var empty T\<close>), the verdict of \<^verbatim>\<open>reflect.ValueOf(t).Comparable()\<close> on that
  zero value, and the growth policy of \<^verbatim>\<open>append\<close>.
\<close>

record 'a env =
  zero_value :: 'a
  comparable :: bool
  newcap :: "nat \<Rightarrow> nat \<Rightarrow> nat"

definition NewQueue :: "'a Queue" where
  "NewQueue = \<lparr>elements = make_slice0, preventDuplicates = False, equalsFunc = None\<rparr>"

text \<open>
  \<open>PreventDuplicates\<close> returns the error value (\<open>None\<close> for \<^verbatim>\<open>nil\<close>) and the queue as
  the call leaves it.
\<close>

definition PreventDuplicates ::
  "'a env \<Rightarrow> ('a \<Rightarrow> 'a \<Rightarrow> bool) option \<Rightarrow> 'a Queue \<Rightarrow> error option \<times> 'a Queue" where
  "PreventDuplicates E f q =
     (if \<not> comparable E then (Some NotComparable, q)
      else (None, q\<lparr>preventDuplicates := True, equalsFunc := f\<rparr>))"

text \<open>
  The loop of \<open>Enqueue\<close> over the current elements, front to back. \<open>Inr True\<close>: an
  element made \<^verbatim>\<open>q.equalsFunc(element, e)\<close> true and the method returned from inside the
  loop; \<open>Inr False\<close>: the loop ran to its end.
\<close>

fun Enqueue_loop ::
  "('a \<Rightarrow> 'a \<Rightarrow> bool) option \<Rightarrow> 'a \<Rightarrow> 'a list \<Rightarrow> panic + bool" where
  "Enqueue_loop eq element [] = Inr False"
| "Enqueue_loop eq element (e # es) =
     (case eq of
        None \<Rightarrow> Inl NilFuncCall
      | Some f \<Rightarrow> if f element e then Inr True else Enqueue_loop eq element es)"

definition Enqueue :: "'a env \<Rightarrow> 'a \<Rightarrow> 'a Queue \<Rightarrow> panic + 'a Queue" where
  "Enqueue E element q =
     (if preventDuplicates q then
        (case Enqueue_loop (equalsFunc q) element (live (elements q)) of
           Inl p \<Rightarrow> Inl p
         | Inr True \<Rightarrow> Inr q
         | Inr False \<Rightarrow> Inr (q\<lparr>elements := append_slice (newcap E) (elements q) element\<rparr>))
      else Inr (q\<lparr>elements := append_slice (newcap E) (elements q) element\<rparr>))"

definition Length :: "'a Queue \<Rightarrow> int" where
  "Length q = int (len (elements q))"

definition IsEmpty :: "'a Queue \<Rightarrow> bool" where
  "IsEmpty q = (len (elements q) = 0)"

text \<open>\<open>Dequeue\<close> and \<open>Peek\<close> return the pair of results and the queue as the call leaves it.\<close>

definition Dequeue :: "'a env \<Rightarrow> 'a Queue \<Rightarrow> ('a \<times> bool) \<times> 'a Queue" where
  "Dequeue E q =
     (if IsEmpty q then ((zero_value E, False), q)
      else (case live (elements q) of
              element # rest \<Rightarrow>
                if Length q = 1 then ((element, True), q\<lparr>elements := nil_slice\<rparr>)
                else ((element, True), q\<lparr>elements := slice_from1 (elements q) element rest\<rparr>)
            | [] \<Rightarrow> ((zero_value E, False), q)))"

definition Peek :: "'a env \<Rightarrow> 'a Queue \<Rightarrow> ('a \<times> bool) \<times> 'a Queue" where
  "Peek E q =
     (if IsEmpty q then ((zero_value E, False), q)
      else (case live (elements q) of
              element # rest \<Rightarrow> ((element, True), q)
            | [] \<Rightarrow> ((zero_value E, False), q)))"

subsection \<open>Calls and runs\<close>

text \<open>
  The methods of \<open>Queue\<close> as one type of calls, and what a call hands back to its caller.
  A run is a sequence of calls on one queue; a panic ends it.
\<close>

datatype 'a qop =
    OpEnqueue 'a
  | OpDequeue
  | OpPeek
  | OpLength
  | OpIsEmpty
  | OpPreventDuplicates "('a \<Rightarrow> 'a \<Rightarrow> bool) option"

datatype 'a val =
    VNothing
  | VElem 'a bool
  | VInt int
  | VBool bool
  | VList "'a list"
  | VPtr nat
  | VError "error option"

fun call :: "'a env \<Rightarrow> 'a qop \<Rightarrow> 'a Queue \<Rightarrow> panic + ('a val \<times> 'a Queue)" where
  "call E (OpEnqueue x) q =
     (case Enqueue E x q of Inl p \<Rightarrow> Inl p | Inr q' \<Rightarrow> Inr (VNothing, q'))"
| "call E OpDequeue q = (case Dequeue E q of ((v, ok), q') \<Rightarrow> Inr (VElem v ok, q'))"
| "call E OpPeek q = (case Peek E q of ((v, ok), q') \<Rightarrow> Inr (VElem v ok, q'))"
| "call E OpLength q = Inr (VInt (Length q), q)"
| "call E OpIsEmpty q = Inr (VBool (IsEmpty q), q)"
| "call E (OpPreventDuplicates f) q =
     (case PreventDuplicates E f q of (err, q') \<Rightarrow> Inr (VError err, q'))"

fun run :: "'a env \<Rightarrow> 'a qop list \<Rightarrow> 'a Queue \<Rightarrow> panic + ('a val list \<times> 'a Queue)" where
  "run E [] q = Inr ([], q)"
| "run E (c # cs) q =
     (case call E c q of
        Inl p \<Rightarrow> Inl p
      | Inr (v, q') \<Rightarrow>
          (case run E cs q' of Inl p \<Rightarrow> Inl p | Inr (vs, q'') \<Rightarrow> Inr (v # vs, q'')))"

text \<open>A call returned an error that is not \<^verbatim>\<open>nil\<close>.\<close>

fun is_error :: "'a val \<Rightarrow> bool" where
  "is_error (VError (Some e)) = True"
| "is_error v = False"

subsection \<open>Equivalent elements\<close>

text \<open>
  \<open>no_equivalent_pair f xs\<close>: no two elements of \<open>xs\<close>, at different positions, are
  equivalent under \<open>f\<close>, whichever way round \<open>f\<close> is asked.
  \<open>no_later_equivalent f xs\<close>: no element of \<open>xs\<close> is equivalent to one in front of it,
  asked the way \<open>Enqueue\<close> asks (\<open>f later earlier\<close>).
\<close>

fun no_equivalent_pair :: "('a \<Rightarrow> 'a \<Rightarrow> bool) \<Rightarrow> 'a list \<Rightarrow> bool" where
  "no_equivalent_pair f [] = True"
| "no_equivalent_pair f (x # xs) =
     (list_all (\<lambda>y. \<not> f x y \<and> \<not> f y x) xs \<and> no_equivalent_pair f xs)"

fun no_later_equivalent :: "('a \<Rightarrow> 'a \<Rightarrow> bool) \<Rightarrow> 'a list \<Rightarrow> bool" where
  "no_later_equivalent f [] = True"
| "no_later_equivalent f (x # xs) =
     (list_all (\<lambda>y. \<not> f y x) xs \<and> no_later_equivalent f xs)"

text \<open>Every \<open>PreventDuplicates\<close> call of a run passes the function \<open>f\<close>.\<close>

fun passes :: "('a \<Rightarrow> 'a \<Rightarrow> bool) \<Rightarrow> 'a qop \<Rightarrow> bool" where
  "passes f (OpPreventDuplicates g) = (g = Some f)"
| "passes f c = True"

section \<open>Set\<close>

text \<open>
  \<^verbatim>\<open>type Set[T comparable] struct { members map[T]struct{}; mu sync.RWMutex }\<close>
  The map is a finite map to the one value of \<^verbatim>\<open>struct{}\<close>. The model is sequential: the
  lock is not part of it. A \<open>Set\<close> here is one that \<open>NewSet\<close> made (its map is not
  \<^verbatim>\<open>nil\<close>).
\<close>

record 'a Set =
  members :: "('a, unit) fmap"

definition NewSet :: "'a Set" where
  "NewSet = \<lparr>members = fmempty\<rparr>"

text \<open>
  \<^verbatim>\<open>for member := range m\<close> visits every key of \<open>m\<close> once, in an order the language
  leaves open: \<open>range_order m ks\<close> says that \<open>ks\<close> is such an order.
\<close>

definition range_order :: "('a, unit) fmap \<Rightarrow> 'a list \<Rightarrow> bool" where
  "range_order m ks = (distinct ks \<and> fset_of_list ks = fmdom m)"

fun Members_loop :: "'a list \<Rightarrow> 'a list \<Rightarrow> 'a list" where
  "Members_loop [] ms = ms"
| "Members_loop (member # ks) ms = Members_loop ks (ms @ [member])"

text \<open>\<open>Members s ms\<close>: \<open>ms\<close> is a slice that \<^verbatim>\<open>s.Members()\<close> may return.\<close>

definition Members :: "'a Set \<Rightarrow> 'a list \<Rightarrow> bool" where
  "Members s ms = (\<exists>ks. range_order (members s) ks \<and> ms = Members_loop ks [])"

definition Add :: "'a \<Rightarrow> 'a Set \<Rightarrow> 'a Set" where
  "Add member s = s\<lparr>members := fmupd member () (members s)\<rparr>"

definition Remove :: "'a \<Rightarrow> 'a Set \<Rightarrow> 'a Set" where
  "Remove member s = s\<lparr>members := fmdrop member (members s)\<rparr>"

definition Contains :: "'a \<Rightarrow> 'a Set \<Rightarrow> bool" where
  "Contains member s = (fmlookup (members s) member \<noteq> None)"

definition Size :: "'a Set \<Rightarrow> int" where
  "Size s = int (fcard (fmdom (members s)))"

definition Clear :: "'a Set \<Rightarrow> 'a Set" where
  "Clear s = s\<lparr>members := fmempty\<rparr>"

subsection \<open>Sets behind pointers\<close>

text \<open>
  \<open>Intersect\<close>, \<open>Union\<close> and \<open>Difference\<close> take two \<^verbatim>\<open>*Set[T]\<close>, which may be the same
  object, and allocate a third. The store is the list of all \<open>Set\<close> objects allocated so
  far and a pointer is an index into it; \<open>NewSet\<close> allocates at the end. A pointer that
  is not in the store (\<^verbatim>\<open>nil\<close>) makes a method panic: \<open>None\<close>.
\<close>

type_synonym 'a store = "'a Set list"

definition alloc_NewSet :: "'a store \<Rightarrow> nat \<times> 'a store" where
  "alloc_NewSet h = (length h, h @ [NewSet])"

text \<open>\<^verbatim>\<open>p.Add(member)\<close>\<close>

definition Add_at :: "nat \<Rightarrow> 'a \<Rightarrow> 'a store \<Rightarrow> 'a store" where
  "Add_at p member h = h[p := Add member (h ! p)]"

fun Intersect_loop :: "nat \<Rightarrow> nat \<Rightarrow> 'a list \<Rightarrow> 'a store \<Rightarrow> 'a store" where
  "Intersect_loop other result [] h = h"
| "Intersect_loop other result (member # ks) h =
     Intersect_loop other result ks
       (if fmlookup (members (h ! other)) member \<noteq> None then Add_at result member h else h)"

text \<open>
  \<open>ks\<close> is the order in which the loop visits \<^verbatim>\<open>s.members\<close>. The result is the new
  pointer and the store after the call.
\<close>

definition Intersect :: "'a list \<Rightarrow> nat \<Rightarrow> nat \<Rightarrow> 'a store \<Rightarrow> (nat \<times> 'a store) option" where
  "Intersect ks s other h =
     (if s < length h \<and> other < length h then
        (case alloc_NewSet h of (result, h1) \<Rightarrow> Some (result, Intersect_loop other result ks h1))
      else None)"

fun Union_loop :: "nat \<Rightarrow> 'a list \<Rightarrow> 'a store \<Rightarrow> 'a store" where
  "Union_loop result [] h = h"
| "Union_loop result (member # ks) h = Union_loop result ks (Add_at result member h)"

text \<open>
  \<open>Union\<close> of the source (the name is taken in HOL). \<open>ks\<close> is the order of the
  loop over \<^verbatim>\<open>s.members\<close>, \<open>ks'\<close> of that over \<^verbatim>\<open>other.members\<close>.
\<close>

definition Union_sets :: "'a list \<Rightarrow> 'a list \<Rightarrow> nat \<Rightarrow> nat \<Rightarrow> 'a store \<Rightarrow> (nat \<times> 'a store) option" where
  "Union_sets ks ks' s other h =
     (if s < length h \<and> other < length h then
        (case alloc_NewSet h of (result, h1) \<Rightarrow>
           Some (result, Union_loop result ks' (Union_loop result ks h1)))
      else None)"

fun Difference_loop :: "nat \<Rightarrow> nat \<Rightarrow> 'a list \<Rightarrow> 'a store \<Rightarrow> 'a store" where
  "Difference_loop other result [] h = h"
| "Difference_loop other result (member # ks) h =
     Difference_loop other result ks
       (if \<not> (fmlookup (members (h ! other)) member \<noteq> None) then Add_at result member h else h)"

definition Difference :: "'a list \<Rightarrow> nat \<Rightarrow> nat \<Rightarrow> 'a store \<Rightarrow> (nat \<times> 'a store) option" where
  "Difference ks s other h =
     (if s < length h \<and> other < length h then
        (case alloc_NewSet h of (result, h1) \<Rightarrow> Some (result, Difference_loop other result ks h1))
      else None)"

subsection \<open>Calls on sets\<close>

text \<open>
  The methods of \<open>Set\<close> as one type of calls: \<open>set_call c s h v h'\<close> says that the call
  \<open>c\<close> on the set at \<open>s\<close> in the store \<open>h\<close> can return \<open>v\<close> and leave the store
  \<open>h'\<close>. It is a relation because the order of a \<^verbatim>\<open>range\<close> over a map is open.
\<close>

datatype 'a sop =
    SMembers
  | SAdd 'a
  | SRemove 'a
  | SContains 'a
  | SSize
  | SClear
  | SIntersect nat
  | SUnion nat
  | SDifference nat

inductive set_call :: "'a sop \<Rightarrow> nat \<Rightarrow> 'a store \<Rightarrow> 'a val \<Rightarrow> 'a store \<Rightarrow> bool" where
  call_Members:
    "s < length h \<Longrightarrow> Members (h ! s) ms \<Longrightarrow> set_call SMembers s h (VList ms) h"
| call_Add:
    "s < length h \<Longrightarrow> set_call (SAdd member) s h VNothing (Add_at s member h)"
| call_Remove:
    "s < length h \<Longrightarrow> set_call (SRemove member) s h VNothing (h[s := Remove member (h ! s)])"
| call_Contains:
    "s < length h \<Longrightarrow> set_call (SContains member) s h (VBool (Contains member (h ! s))) h"
| call_Size:
    "s < length h \<Longrightarrow> set_call SSize s h (VInt (Size (h ! s))) h"
| call_Clear:
    "s < length h \<Longrightarrow> set_call SClear s h VNothing (h[s := Clear (h ! s)])"
| call_Intersect:
    "range_order (members (h ! s)) ks \<Longrightarrow> Intersect ks s other h = Some (result, h') \<Longrightarrow>
       set_call (SIntersect other) s h (VPtr result) h'"
| call_Union:
    "range_order (members (h ! s)) ks \<Longrightarrow> range_order (members (h ! other)) ks' \<Longrightarrow>
       Union_sets ks ks' s other h = Some (result, h') \<Longrightarrow>
       set_call (SUnion other) s h (VPtr result) h'"
| call_Difference:
    "range_order (members (h ! s)) ks \<Longrightarrow> Difference ks s other h = Some (result, h') \<Longrightarrow>
       set_call (SDifference other) s h (VPtr result) h'"

subsection \<open>Sequences of Add and Remove\<close>

datatype 'a mutation = OpAdd 'a | OpRemove 'a

fun mutate :: "'a mutation \<Rightarrow> 'a Set \<Rightarrow> 'a Set" where
  "mutate (OpAdd x) s = Add x s"
| "mutate (OpRemove x) s = Remove x s"

fun mutate_all :: "'a mutation list \<Rightarrow> 'a Set \<Rightarrow> 'a Set" where
  "mutate_all [] s = s"
| "mutate_all (m # ms) s = mutate_all ms (mutate m s)"

text \<open>
  Counting, in the words of the specification. \<open>added ms\<close>: the elements that the
  \<open>Add\<close> calls of \<open>ms\<close> were given. \<open>removed s ms\<close>: the elements of the \<open>Remove\<close>
  calls that found their element in the set (successful removals), when \<open>ms\<close> runs from
  \<open>s\<close>. \<open>inserted s ms\<close>: the elements of the \<open>Add\<close> calls that did not find their
  element in the set. Each is a list with one entry for each such call; the number of
  distinct elements of a list \<open>xs\<close> is \<open>card (set xs)\<close>.
\<close>

fun added :: "'a mutation list \<Rightarrow> 'a list" where
  "added [] = []"
| "added (OpAdd x # ms) = x # added ms"
| "added (OpRemove x # ms) = added ms"

fun removed :: "'a Set \<Rightarrow> 'a mutation list \<Rightarrow> 'a list" where
  "removed s [] = []"
| "removed s (OpAdd x # ms) = removed (Add x s) ms"
| "removed s (OpRemove x # ms) =
     (if Contains x s then x # removed (Remove x s) ms else removed (Remove x s) ms)"

fun inserted :: "'a Set \<Rightarrow> 'a mutation list \<Rightarrow> 'a list" where
  "inserted s [] = []"
| "inserted s (OpAdd x # ms) =
     (if Contains x s then inserted (Add x s) ms else x # inserted (Add x s) ms)"
| "inserted s (OpRemove x # ms) = inserted (Remove x s) ms"

text \<open>
  \<open>never_readded gone s ms\<close>: running \<open>ms\<close> from \<open>s\<close>, no \<open>Add\<close> call is given an
  element that an earlier \<open>Remove\<close> call has removed (\<open>gone\<close> are the elements removed
  so far).
\<close>

fun never_readded :: "'a list \<Rightarrow> 'a Set \<Rightarrow> 'a mutation list \<Rightarrow> bool" where
  "never_readded gone s [] = True"
| "never_readded gone s (OpAdd x # ms) = (x \<notin> set gone \<and> never_readded gone (Add x s) ms)"
| "never_readded gone s (OpRemove x # ms) =
     never_readded (if Contains x s then x # gone else gone) (Remove x s) ms"

subsection \<open>A new set in the store\<close>

text \<open>
  \<open>fresh_result h r h'\<close>: going from the store \<open>h\<close> to \<open>h'\<close>, the pointer \<open>r\<close> is
  new (no set of \<open>h\<close> has it), one set has been allocated, and every set of \<open>h\<close> is in
  \<open>h'\<close> as it was.
\<close>

definition fresh_result :: "'a store \<Rightarrow> nat \<Rightarrow> 'a store \<Rightarrow> bool" where
  "fresh_result h r h' =
     (r = length h \<and> length h' = Suc (length h) \<and> take (length h) h' = h)"

section \<open>Sample values\<close>

text \<open>
  An element type \<^verbatim>\<open>int\<close>: zero value 0, comparable, and an \<^verbatim>\<open>append\<close> that doubles the
  capacity when it has to allocate.
\<close>

definition double_cap :: "nat \<Rightarrow> nat \<Rightarrow> nat" where
  "double_cap old need = 2 * old"

definition int_env :: "int env" where
  "int_env = \<lparr>zero_value = 0, comparable = True, newcap = double_cap\<rparr>"

text \<open>The queue after \<^verbatim>\<open>q := NewQueue[int](); q.Enqueue(7)\<close>.\<close>

definition queue7 :: "int Queue" where
  "queue7 = \<lparr>elements = \<lparr>dead = [], live = [7], spare = 0\<rparr>,
     preventDuplicates = False, equalsFunc = None\<rparr>"

text \<open>
  An element type with a field to compare by, as in the test of the package, and a second
  field that tells equivalent elements apart.
\<close>

record ContactUser =
  Name :: string
  Email :: string

definition same_Email :: "ContactUser \<Rightarrow> ContactUser \<Rightarrow> bool" where
  "same_Email a b = (Email a = Email b)"

definition user_env :: "ContactUser env" where
  "user_env = \<lparr>zero_value = \<lparr>Name = [], Email = []\<rparr>, comparable = True, newcap = double_cap\<rparr>"

definition alice :: ContactUser where
  "alice = \<lparr>Name = ''Alice'', Email = ''alice@example.com''\<rparr>"

definition alice2 :: ContactUser where
  "alice2 = \<lparr>Name = ''A. Liddell'', Email = ''alice@example.com''\<rparr>"

definition bob :: ContactUser where
  "bob = \<lparr>Name = ''Bob'', Email = ''bob@example.com''\<rparr>"

text \<open>The queue after \<^verbatim>\<open>q := NewQueue[ContactUser](); q.PreventDuplicates(same_Email)\<close>.\<close>

definition user_queue :: "ContactUser Queue" where
  "user_queue = \<lparr>elements = make_slice0, preventDuplicates = True,
     equalsFunc = Some same_Email\<rparr>"

text \<open>
  The queue after
  \<^verbatim>\<open>q := NewQueue[int](); q.Enqueue(1); q.Enqueue(1); q.PreventDuplicates(func(a, b int) bool { return a == b })\<close>.
\<close>

definition dup_queue :: "int Queue" where
  "dup_queue = \<lparr>elements = \<lparr>dead = [], live = [1, 1], spare = 0\<rparr>,
     preventDuplicates = True, equalsFunc = Some (=)\<rparr>"

text \<open>An element type that is not comparable: \<^verbatim>\<open>[]int\<close>, with zero value the empty slice.\<close>

definition ints_env :: "int list env" where
  "ints_env = \<lparr>zero_value = [], comparable = False, newcap = double_cap\<rparr>"

definition ints_queue :: "int list Queue" where
  "ints_queue = \<lparr>elements = \<lparr>dead = [], live = [[1, 2]], spare = 0\<rparr>,
     preventDuplicates = False, equalsFunc = None\<rparr>"

text \<open>The queue \<open>user_queue\<close> after \<^verbatim>\<open>q.Enqueue(alice)\<close>.\<close>

definition user_queue1 :: "ContactUser Queue" where
  "user_queue1 = \<lparr>elements = \<lparr>dead = [], live = [alice], spare = 0\<rparr>,
     preventDuplicates = True, equalsFunc = Some same_Email\<rparr>"

text \<open>The sets \<open>{1, 2, 3}\<close> and \<open>{2, 3, 4}\<close> of the tests, and stores that hold them.\<close>

definition set123 :: "int Set" where
  "set123 = Add 3 (Add 2 (Add 1 NewSet))"

definition set234 :: "int Set" where
  "set234 = Add 4 (Add 3 (Add 2 NewSet))"

definition sample_store :: "int store" where
  "sample_store = [set123, set234]"

definition store_i :: "int store" where
  "store_i = [set123, set234, Add 3 (Add 2 NewSet)]"

definition store_d :: "int store" where
  "store_d = [set123, set234, Add 3 (Add 2 NewSet), Add 1 NewSet]"

definition store_u :: "int store" where
  "store_u = [set123, set234, Add 4 (Add 3 (Add 2 (Add 3 (Add 2 (Add 1 NewSet)))))]"

section \<open>Properties of Queue\<close>

lemma IsEmpty_live: "IsEmpty q = (live (elements q) = [])"
  by (simp add: IsEmpty_def len_def)

lemma Length_live: "Length q = int (length (live (elements q)))"
  by (simp add: Length_def len_def)

lemma queue7_Enqueue: "Enqueue int_env 7 NewQueue = Inr queue7"
  by (simp add: Enqueue_def NewQueue_def make_slice0_def append_slice_def queue7_def
      int_env_def double_cap_def len_def cap_def)

subsection \<open>The empty queue, and Peek\<close>

text \<open>
  C7. On an empty queue \<open>Dequeue\<close> and \<open>Peek\<close> both return the zero value and
  \<^verbatim>\<open>false\<close>, as ordinary results (no error, no panic), and leave the queue as it is.
  On every queue, empty or not, \<open>Peek\<close> leaves the queue as it is, so neither its
  length nor its contents change.
\<close>

theorem Dequeue_Peek_empty:
  "(IsEmpty q \<longrightarrow>
      Dequeue E q = ((zero_value E, False), q) \<and> Peek E q = ((zero_value E, False), q) \<and>
      call E OpDequeue q = Inr (VElem (zero_value E) False, q) \<and>
      call E OpPeek q = Inr (VElem (zero_value E) False, q)) \<and>
   snd (Peek E q) = q \<and> Length (snd (Peek E q)) = Length q \<and>
   live (elements (snd (Peek E q))) = live (elements q)"
  by (cases "live (elements q)") (simp_all add: Dequeue_def Peek_def IsEmpty_live)

theorem Dequeue_Peek_empty_witness:
  "IsEmpty (NewQueue :: int Queue) \<and>
   Dequeue int_env NewQueue = ((0, False), NewQueue) \<and>
   Peek int_env NewQueue = ((0, False), NewQueue) \<and>
   snd (Peek int_env queue7) = queue7"
  using Dequeue_Peek_empty [of NewQueue int_env] Dequeue_Peek_empty [of queue7 int_env]
  by (simp add: IsEmpty_live NewQueue_def make_slice0_def int_env_def)

subsection \<open>Draining the queue\<close>





subsection \<open>Enqueue under duplicate suppression\<close>

lemma Enqueue_loop_Some: "Enqueue_loop (Some f) x xs = Inr (\<exists>e\<in>set xs. f x e)"
  by (induction xs) auto

lemma live_append_slice: "live (append_slice g s x) = live s @ [x]"
  by (simp add: append_slice_def)

lemma user_queue_PreventDuplicates:
  "PreventDuplicates user_env (Some same_Email) NewQueue = (None, user_queue)"
  by (simp add: PreventDuplicates_def user_env_def NewQueue_def user_queue_def)

text \<open>
  C4. On a queue with duplicate suppression active and \<open>f\<close> registered, \<open>Enqueue x\<close>
  goes through the current elements from the front (\<open>Enqueue_loop\<close>). If one of them is
  equivalent to \<open>x\<close> (\<open>f x e\<close>), the call returns the queue exactly as it was: \<open>x\<close> is
  dropped and the element already there stays. Otherwise \<open>x\<close> is appended at the back.
  In particular, when \<open>f\<close> compares a field \<open>k\<close> and the queue is empty, enqueuing
  \<open>x\<close> and then \<open>y\<close> with \<open>k x = k y\<close> leaves a queue of length 1, holding \<open>x\<close>.
\<close>

theorem Enqueue_suppressing:
  assumes "preventDuplicates q" and "equalsFunc q = Some f"
  shows "((\<exists>e\<in>set (live (elements q)). f x e) \<longrightarrow> Enqueue E x q = Inr q) \<and>
         (\<not> (\<exists>e\<in>set (live (elements q)). f x e) \<longrightarrow>
            Enqueue E x q = Inr (q\<lparr>elements := append_slice (newcap E) (elements q) x\<rparr>) \<and>
            live (append_slice (newcap E) (elements q) x) = live (elements q) @ [x]) \<and>
         (\<forall>k y. f = (\<lambda>a b. k a = k b) \<and> IsEmpty q \<and> k x = k y \<longrightarrow>
            (\<exists>q1. Enqueue E x q = Inr q1 \<and> Enqueue E y q1 = Inr q1 \<and>
               live (elements q1) = [x] \<and> Length q1 = 1))"
proof (intro conjI allI impI)
  assume "\<exists>e\<in>set (live (elements q)). f x e"
  with assms show "Enqueue E x q = Inr q"
    by (simp add: Enqueue_def Enqueue_loop_Some)
next
  assume "\<not> (\<exists>e\<in>set (live (elements q)). f x e)"
  with assms show "Enqueue E x q = Inr (q\<lparr>elements := append_slice (newcap E) (elements q) x\<rparr>)"
    by (simp add: Enqueue_def Enqueue_loop_Some)
next
  show "live (append_slice (newcap E) (elements q) x) = live (elements q) @ [x]"
    by (rule live_append_slice)
next
  fix k y
  assume h: "f = (\<lambda>a b. k a = k b) \<and> IsEmpty q \<and> k x = k y"
  let ?q1 = "q\<lparr>elements := append_slice (newcap E) (elements q) x\<rparr>"
  from h have empty: "live (elements q) = []" by (simp add: IsEmpty_live)
  with assms have 1: "Enqueue E x q = Inr ?q1"
    by (simp add: Enqueue_def)
  have l: "live (elements ?q1) = [x]" by (simp add: live_append_slice empty)
  with assms h have 2: "Enqueue E y ?q1 = Inr ?q1"
    by (simp add: Enqueue_def)
  from 1 2 l show "\<exists>q1. Enqueue E x q = Inr q1 \<and> Enqueue E y q1 = Inr q1 \<and>
               live (elements q1) = [x] \<and> Length q1 = 1"
    by (auto simp: Length_live)
qed

theorem Enqueue_suppressing_witness:
  "preventDuplicates user_queue \<and> equalsFunc user_queue = Some same_Email \<and>
   same_Email = (\<lambda>a b. Email a = Email b) \<and> IsEmpty user_queue \<and> Email alice = Email alice2 \<and>
   (\<exists>q1. Enqueue user_env alice user_queue = Inr q1 \<and> Enqueue user_env alice2 q1 = Inr q1 \<and>
      live (elements q1) = [alice] \<and> Length q1 = 1) \<and>
   preventDuplicates user_queue1 \<and> equalsFunc user_queue1 = Some same_Email \<and>
   (\<exists>e\<in>set (live (elements user_queue1)). same_Email alice2 e) \<and>
   Enqueue user_env alice2 user_queue1 = Inr user_queue1 \<and>
   \<not> (\<exists>e\<in>set (live (elements user_queue1)). same_Email bob e) \<and>
   Enqueue user_env bob user_queue1 =
     Inr (user_queue1\<lparr>elements :=
       append_slice (newcap user_env) (elements user_queue1) bob\<rparr>) \<and>
   live (append_slice (newcap user_env) (elements user_queue1) bob) = [alice, bob]"
proof -
  have p1: "preventDuplicates user_queue1" and e1: "equalsFunc user_queue1 = Some same_Email"
    by (simp_all add: user_queue1_def)
  have y: "\<exists>e\<in>set (live (elements user_queue1)). same_Email alice2 e"
    by (simp add: user_queue1_def same_Email_def alice_def alice2_def)
  have n: "\<not> (\<exists>e\<in>set (live (elements user_queue1)). same_Email bob e)"
    by (simp add: user_queue1_def same_Email_def alice_def bob_def)
  from Enqueue_suppressing [OF p1 e1, of alice2 user_env] y
  have 1: "Enqueue user_env alice2 user_queue1 = Inr user_queue1"
    by blast
  from Enqueue_suppressing [OF p1 e1, of bob user_env] n
  have 2: "Enqueue user_env bob user_queue1 =
     Inr (user_queue1\<lparr>elements :=
       append_slice (newcap user_env) (elements user_queue1) bob\<rparr>)"
    and "live (append_slice (newcap user_env) (elements user_queue1) bob) =
      live (elements user_queue1) @ [bob]"
    by blast+
  then have 3: "live (append_slice (newcap user_env) (elements user_queue1) bob) = [alice, bob]"
    by (simp add: user_queue1_def)
  have p: "preventDuplicates user_queue" and e: "equalsFunc user_queue = Some same_Email"
    by (simp_all add: user_queue_def)
  have f: "same_Email = (\<lambda>a b. Email a = Email b)"
    by (simp add: same_Email_def fun_eq_iff)
  have i: "IsEmpty user_queue"
    by (simp add: IsEmpty_live user_queue_def make_slice0_def)
  have k: "Email alice = Email alice2"
    by (simp add: alice_def alice2_def)
  from Enqueue_suppressing [OF p e, of alice user_env] f i k
  have "\<exists>q1. Enqueue user_env alice user_queue = Inr q1 \<and> Enqueue user_env alice2 q1 = Inr q1 \<and>
      live (elements q1) = [alice] \<and> Length q1 = 1"
    by blast
  with p e f i k p1 e1 y n 1 2 3 show ?thesis by blast
qed

subsection \<open>First in, first out\<close>

lemma run_append:
  "run E (cs @ ds) q =
     (case run E cs q of
        Inl p \<Rightarrow> Inl p
      | Inr (vs, q') \<Rightarrow>
          (case run E ds q' of Inl p \<Rightarrow> Inl p | Inr (ws, q'') \<Rightarrow> Inr (vs @ ws, q'')))"
  by (induction cs arbitrary: q) (auto split: sum.splits)

lemma Enqueue_plain:
  "\<not> preventDuplicates q \<Longrightarrow>
     Enqueue E x q = Inr (q\<lparr>elements := append_slice (newcap E) (elements q) x\<rparr>)"
  by (simp add: Enqueue_def)

lemma run_Enqueue_plain:
  "\<not> preventDuplicates q \<Longrightarrow>
     \<exists>q'. run E (map OpEnqueue vs) q = Inr (replicate (length vs) VNothing, q') \<and>
       live (elements q') = live (elements q) @ vs \<and>
       preventDuplicates q' = preventDuplicates q \<and> equalsFunc q' = equalsFunc q"
proof (induction vs arbitrary: q)
  case Nil
  then show ?case by simp
next
  case (Cons v vs)
  let ?q1 = "q\<lparr>elements := append_slice (newcap E) (elements q) v\<rparr>"
  from Cons.prems have "\<not> preventDuplicates ?q1" by simp
  from Cons.IH [OF this] obtain q' where
    "run E (map OpEnqueue vs) ?q1 = Inr (replicate (length vs) VNothing, q')"
    "live (elements q') = live (elements ?q1) @ vs"
    "preventDuplicates q' = preventDuplicates ?q1" "equalsFunc q' = equalsFunc ?q1"
    by blast
  with Cons.prems show ?case
    by (simp add: Enqueue_plain live_append_slice)
qed

lemma run_Dequeue_all:
  "live (elements q) = xs \<Longrightarrow>
     run E (replicate (length xs) OpDequeue) q =
       Inr (map (\<lambda>v. VElem v True) xs, if xs = [] then q else q\<lparr>elements := nil_slice\<rparr>)"
proof (induction xs arbitrary: q)
  case Nil
  then show ?case by simp
next
  case (Cons x xs)
  show ?case
  proof (cases "xs = []")
    case True
    with Cons.prems show ?thesis
      by (simp add: Dequeue_def IsEmpty_live Length_live)
  next
    case False
    let ?q1 = "q\<lparr>elements := slice_from1 (elements q) x xs\<rparr>"
    have "live (elements ?q1) = xs" by (simp add: slice_from1_def)
    from Cons.IH [OF this] False Cons.prems show ?thesis
      by (simp add: Dequeue_def IsEmpty_live Length_live)
  qed
qed

text \<open>
  C5. On a fresh queue without duplicate suppression, \<open>Enqueue v1\<close>, ..., \<open>Enqueue vn\<close>
  followed by \<open>n\<close> calls of \<open>Dequeue\<close> run without panic, each \<open>Enqueue\<close> returns
  nothing, and the \<open>Dequeue\<close> calls return \<open>(v1, true)\<close>, ..., \<open>(vn, true)\<close> in this
  order. The queue is then as \<open>NewQueue\<close> made it.
\<close>

theorem Enqueue_Dequeue_fifo:
  "run E (map OpEnqueue vs @ replicate (length vs) OpDequeue) NewQueue =
     Inr (replicate (length vs) VNothing @ map (\<lambda>v. VElem v True) vs, NewQueue)"
proof (cases "vs = []")
  case True
  then show ?thesis by simp
next
  case False
  have "\<not> preventDuplicates (NewQueue :: 'a Queue)" by (simp add: NewQueue_def)
  from run_Enqueue_plain [OF this, of E vs] obtain q' where
    r: "run E (map OpEnqueue vs) NewQueue = Inr (replicate (length vs) VNothing, q')"
    and l: "live (elements q') = vs"
    and p: "preventDuplicates q' = preventDuplicates (NewQueue :: 'a Queue)"
       "equalsFunc q' = equalsFunc (NewQueue :: 'a Queue)"
    by (auto simp: NewQueue_def make_slice0_def)
  have e: "q'\<lparr>elements := nil_slice\<rparr> = NewQueue"
    using p by (simp add: NewQueue_def nil_slice_def make_slice0_def)
  show ?thesis
    using run_Dequeue_all [OF l, of E] r e False
    by (simp add: run_append)
qed

theorem Enqueue_Dequeue_fifo_witness:
  "run int_env [OpEnqueue 10, OpEnqueue 20, OpDequeue, OpDequeue] NewQueue =
     Inr ([VNothing, VNothing, VElem 10 True, VElem 20 True], NewQueue)"
  using Enqueue_Dequeue_fifo [of int_env "[10, 20]"] by simp


subsection \<open>The invariant of duplicate suppression\<close>

text \<open>
  C1, as stated: in every state that calls of \<open>Enqueue\<close>, \<open>Dequeue\<close> and
  \<open>PreventDuplicates\<close> reach from \<open>NewQueue\<close>, in any order, and in which duplicate
  suppression is enabled, no two elements of the queue are equivalent under the function
  supplied. This fails when the elements were enqueued before suppression was enabled:
  \<open>PreventDuplicates\<close> does not look at the elements already there.
\<close>

theorem suppression_after_enqueue_counterexample:
  "run int_env [OpEnqueue 1, OpEnqueue 1, OpPreventDuplicates (Some (=))] NewQueue =
     Inr ([VNothing, VNothing, VError None], dup_queue) \<and>
   preventDuplicates dup_queue \<and> equalsFunc dup_queue = Some (=) \<and>
   live (elements dup_queue) = [1, 1] \<and>
   \<not> no_equivalent_pair (=) (live (elements dup_queue))"
  by (simp add: Enqueue_def PreventDuplicates_def NewQueue_def make_slice0_def append_slice_def
      dup_queue_def int_env_def double_cap_def len_def cap_def)

lemma no_later_equivalent_snoc:
  "no_later_equivalent f (xs @ [x]) = (no_later_equivalent f xs \<and> (\<forall>e\<in>set xs. \<not> f x e))"
  by (induction xs) (auto simp: list_all_iff)

lemma no_later_equivalent_symmetric:
  "(\<forall>a b. f a b = f b a) \<Longrightarrow> no_later_equivalent f xs = no_equivalent_pair f xs"
  by (induction xs) (auto simp: list_all_iff)

lemma call_keeps_no_later:
  assumes "preventDuplicates q" and "equalsFunc q = Some f"
    and "no_later_equivalent f (live (elements q))"
    and "passes f c" and "call E c q = Inr (v, q')"
  shows "preventDuplicates q' \<and> equalsFunc q' = Some f \<and>
         no_later_equivalent f (live (elements q'))"
proof (cases c)
  case (OpEnqueue x)
  show ?thesis
  proof (cases "\<exists>e\<in>set (live (elements q)). f x e")
    case True
    with assms OpEnqueue show ?thesis
      by (simp add: Enqueue_def Enqueue_loop_Some)
  next
    case False
    with assms OpEnqueue have "q' = q\<lparr>elements := append_slice (newcap E) (elements q) x\<rparr>"
      by (simp add: Enqueue_def Enqueue_loop_Some)
    with assms False show ?thesis
      by (simp add: live_append_slice no_later_equivalent_snoc)
  qed
next
  case OpDequeue
  with assms show ?thesis
    by (cases "live (elements q)")
       (auto simp: Dequeue_def IsEmpty_live nil_slice_def slice_from1_def split: if_splits)
next
  case OpPeek
  with assms show ?thesis
    by (cases "live (elements q)") (auto simp: Peek_def IsEmpty_live)
next
  case OpLength
  with assms show ?thesis by auto
next
  case OpIsEmpty
  with assms show ?thesis by auto
next
  case (OpPreventDuplicates g)
  with assms show ?thesis by (auto simp: PreventDuplicates_def split: if_splits)
qed

lemma run_keeps_no_later:
  "preventDuplicates q \<Longrightarrow> equalsFunc q = Some f \<Longrightarrow>
   no_later_equivalent f (live (elements q)) \<Longrightarrow> list_all (passes f) cs \<Longrightarrow>
   run E cs q = Inr (vs, q') \<Longrightarrow>
   preventDuplicates q' \<and> equalsFunc q' = Some f \<and> no_later_equivalent f (live (elements q'))"
proof (induction cs arbitrary: q vs)
  case Nil
  then show ?case by simp
next
  case (Cons c cs)
  from Cons.prems(5) obtain v q1 ws where
    c: "call E c q = Inr (v, q1)" and r: "run E cs q1 = Inr (ws, q')"
    by (auto split: sum.splits prod.splits)
  from Cons.prems have "passes f c" "list_all (passes f) cs" by simp_all
  from call_keeps_no_later [OF Cons.prems(1-3) this(1) c] Cons.IH [OF _ _ _ this(2) r]
  show ?case by blast
qed

text \<open>
  C1, amended. Let \<open>PreventDuplicates\<close> succeed with a function \<open>f\<close> (not \<^verbatim>\<open>nil\<close>) on a
  queue in which no element is equivalent to one in front of it (an empty queue, for one),
  and let any calls follow whose \<open>PreventDuplicates\<close> calls pass the same \<open>f\<close>. Then in
  every state reached suppression is enabled with \<open>f\<close>, and no element is equivalent to
  one in front of it, asked as \<open>Enqueue\<close> asks (\<open>f later earlier\<close>). When \<open>f\<close> is
  symmetric, no two elements of the queue are equivalent.
\<close>

theorem suppression_invariant:
  assumes start: "no_later_equivalent f (live (elements q0))"
    and on: "PreventDuplicates E (Some f) q0 = (None, q1)"
    and same: "list_all (passes f) cs"
    and run: "run E cs q1 = Inr (vs, q)"
  shows "preventDuplicates q \<and> equalsFunc q = Some f \<and>
         no_later_equivalent f (live (elements q)) \<and>
         ((\<forall>a b. f a b = f b a) \<longrightarrow> no_equivalent_pair f (live (elements q)))"
proof -
  from on have q1: "preventDuplicates q1" "equalsFunc q1 = Some f"
    "live (elements q1) = live (elements q0)"
    by (auto simp: PreventDuplicates_def split: if_splits)
  with start have "no_later_equivalent f (live (elements q1))" by simp
  from run_keeps_no_later [OF q1(1,2) this same run]
  show ?thesis by (auto simp: no_later_equivalent_symmetric)
qed

lemma user_queue1_run:
  "run user_env [OpEnqueue alice, OpEnqueue alice2] user_queue =
     Inr ([VNothing, VNothing], user_queue1)"
  by (simp add: Enqueue_def user_queue_def user_queue1_def make_slice0_def append_slice_def
      user_env_def double_cap_def len_def cap_def same_Email_def alice_def alice2_def)

theorem suppression_invariant_witness:
  "no_later_equivalent same_Email (live (elements (NewQueue :: ContactUser Queue))) \<and>
   PreventDuplicates user_env (Some same_Email) NewQueue = (None, user_queue) \<and>
   list_all (passes same_Email) [OpEnqueue alice, OpEnqueue alice2] \<and>
   run user_env [OpEnqueue alice, OpEnqueue alice2] user_queue =
     Inr ([VNothing, VNothing], user_queue1) \<and>
   (\<forall>a b. same_Email a b = same_Email b a) \<and>
   preventDuplicates user_queue1 \<and> equalsFunc user_queue1 = Some same_Email \<and>
   no_later_equivalent same_Email (live (elements user_queue1)) \<and>
   no_equivalent_pair same_Email (live (elements user_queue1))"
proof -
  have a: "no_later_equivalent same_Email (live (elements (NewQueue :: ContactUser Queue)))"
    by (simp add: NewQueue_def make_slice0_def)
  have b: "list_all (passes same_Email) [OpEnqueue alice, OpEnqueue alice2]"
    by simp
  have c: "\<forall>a b. same_Email a b = same_Email b a"
    by (auto simp: same_Email_def)
  from suppression_invariant [OF a user_queue_PreventDuplicates b user_queue1_run] c
  have "preventDuplicates user_queue1 \<and> equalsFunc user_queue1 = Some same_Email \<and>
    no_later_equivalent same_Email (live (elements user_queue1)) \<and>
    no_equivalent_pair same_Email (live (elements user_queue1))"
    by blast
  with a b c user_queue_PreventDuplicates user_queue1_run show ?thesis by blast
qed

subsection \<open>The error of PreventDuplicates\<close>

lemma call_not_comparable:
  assumes "\<not> comparable E" and "\<not> preventDuplicates q"
  shows "\<exists>v q'. call E c q = Inr (v, q') \<and> \<not> preventDuplicates q' \<and> equalsFunc q' = equalsFunc q"
proof (cases c)
  case (OpEnqueue x)
  with assms show ?thesis by (simp add: Enqueue_plain)
next
  case OpDequeue
  with assms show ?thesis
    by (cases "live (elements q)") (simp_all add: Dequeue_def)
next
  case OpPeek
  with assms show ?thesis
    by (cases "live (elements q)") (simp_all add: Peek_def)
next
  case OpLength
  with assms show ?thesis by simp
next
  case OpIsEmpty
  with assms show ?thesis by simp
next
  case (OpPreventDuplicates g)
  with assms show ?thesis by (simp add: PreventDuplicates_def)
qed

lemma run_not_comparable:
  assumes "\<not> comparable E"
  shows "\<not> preventDuplicates q \<Longrightarrow>
    \<exists>vs q'. run E cs q = Inr (vs, q') \<and> \<not> preventDuplicates q' \<and> equalsFunc q' = equalsFunc q"
proof (induction cs arbitrary: q)
  case Nil
  then show ?case by simp
next
  case (Cons c cs)
  from call_not_comparable [OF assms Cons.prems, of c] obtain v q1 where
    c: "call E c q = Inr (v, q1)" "\<not> preventDuplicates q1" "equalsFunc q1 = equalsFunc q"
    by blast
  from Cons.IH [OF c(2)] obtain vs q' where
    "run E cs q1 = Inr (vs, q')" "\<not> preventDuplicates q'" "equalsFunc q' = equalsFunc q1"
    by blast
  with c show ?case by simp
qed

lemma set_call_no_error: "set_call c s h v h' \<Longrightarrow> \<not> is_error v"
  by (induction rule: set_call.induct) simp_all

lemma call_error_PreventDuplicates:
  "call E c q = Inr (v, q') \<Longrightarrow> is_error v \<Longrightarrow> \<exists>g. c = OpPreventDuplicates g"
  by (cases c) (auto split: sum.splits prod.splits)

lemma Enqueue_without_comparable: "Enqueue (E\<lparr>comparable := b\<rparr>) x q = Enqueue E x q"
  by (simp add: Enqueue_def split: sum.split bool.split)

lemma Dequeue_without_comparable: "Dequeue (E\<lparr>comparable := b\<rparr>) q = Dequeue E q"
  by (simp add: Dequeue_def split: list.split)

lemma Peek_without_comparable: "Peek (E\<lparr>comparable := b\<rparr>) q = Peek E q"
  by (simp add: Peek_def split: list.split)

lemma call_without_comparable:
  "(\<forall>g. c \<noteq> OpPreventDuplicates g) \<Longrightarrow> call (E\<lparr>comparable := b\<rparr>) c q = call E c q"
  by (cases c)
     (simp_all add: Enqueue_without_comparable Dequeue_without_comparable Peek_without_comparable)

text \<open>
  C3. \<open>PreventDuplicates\<close> returns an error exactly when the element type is not
  comparable (the verdict \<open>comparable E\<close> of the check on the zero value of the type),
  and the error is then the one of the package. The check belongs to this call alone:
  \<open>Enqueue\<close>, like every call other than \<open>PreventDuplicates\<close>, does the same whatever
  the verdict would be. No other call on a queue returns an error, and no call on a set
  does.
\<close>

theorem PreventDuplicates_only_error:
  "(fst (PreventDuplicates E f q) \<noteq> None \<longleftrightarrow> \<not> comparable E) \<and>
   (\<not> comparable E \<longrightarrow> fst (PreventDuplicates E f q) = Some NotComparable) \<and>
   (\<forall>b x. Enqueue (E\<lparr>comparable := b\<rparr>) x q = Enqueue E x q) \<and>
   (\<forall>b c. (\<forall>g. c \<noteq> OpPreventDuplicates g) \<longrightarrow> call (E\<lparr>comparable := b\<rparr>) c q = call E c q) \<and>
   (\<forall>c v q'. call E c q = Inr (v, q') \<and> is_error v \<longrightarrow> (\<exists>g. c = OpPreventDuplicates g)) \<and>
   (\<forall>c s (h :: 'b store) v h'. set_call c s h v h' \<longrightarrow> \<not> is_error v)"
proof (intro conjI allI impI)
  show "(fst (PreventDuplicates E f q) \<noteq> None) = (\<not> comparable E)"
    by (simp add: PreventDuplicates_def)
  show "fst (PreventDuplicates E f q) = Some NotComparable" if "\<not> comparable E"
    using that by (simp add: PreventDuplicates_def)
  show "Enqueue (E\<lparr>comparable := b\<rparr>) x q = Enqueue E x q" for b x
    by (rule Enqueue_without_comparable)
  show "call (E\<lparr>comparable := b\<rparr>) c q = call E c q" if "\<forall>g. c \<noteq> OpPreventDuplicates g" for b c
    using that by (rule call_without_comparable)
  show "\<exists>g. c = OpPreventDuplicates g" if "call E c q = Inr (v, q') \<and> is_error v" for c v q'
    using that call_error_PreventDuplicates by blast
  show "\<not> is_error v" if "set_call c s h v h'" for c s and h :: "'b store" and v h'
    using that by (rule set_call_no_error)
qed


theorem PreventDuplicates_only_error_witness:
  "\<not> comparable ints_env \<and>
   fst (PreventDuplicates ints_env (Some (=)) ints_queue) = Some NotComparable \<and>
   comparable int_env \<and> fst (PreventDuplicates int_env (Some (=)) queue7) = None \<and>
   call ints_env (OpPreventDuplicates (Some (=))) ints_queue =
     Inr (VError (Some NotComparable), ints_queue) \<and>
   is_error (VError (Some NotComparable) :: int list val) \<and>
   call (int_env\<lparr>comparable := False\<rparr>) (OpEnqueue 7) NewQueue = Inr (VNothing, queue7) \<and>
   set_call SSize 0 sample_store (VInt (Size (sample_store ! 0))) sample_store \<and>
   \<not> is_error (VInt (Size (sample_store ! 0)) :: int val)"
proof -
  have 6: "set_call SSize 0 sample_store (VInt (Size (sample_store ! 0))) sample_store"
    by (rule call_Size) (simp add: sample_store_def)
  with PreventDuplicates_only_error [of int_env "Some (=)" NewQueue]
  have 7: "\<not> is_error (VInt (Size (sample_store ! 0)) :: int val)"
    by blast
  have c: "\<not> comparable ints_env" "comparable int_env"
    by (simp_all add: ints_env_def int_env_def)
  from PreventDuplicates_only_error [of ints_env "Some (=)" ints_queue] c
  have 1: "fst (PreventDuplicates ints_env (Some (=)) ints_queue) = Some NotComparable"
    by blast
  from PreventDuplicates_only_error [of int_env "Some (=)" queue7] c
  have 2: "fst (PreventDuplicates int_env (Some (=)) queue7) = None"
    by blast
  from PreventDuplicates_only_error [of int_env "Some (=)" NewQueue]
  have "Enqueue (int_env\<lparr>comparable := False\<rparr>) 7 NewQueue = Enqueue int_env 7 NewQueue"
    by blast
  with queue7_Enqueue
  have 3: "call (int_env\<lparr>comparable := False\<rparr>) (OpEnqueue 7) NewQueue = Inr (VNothing, queue7)"
    by simp
  have 4: "call ints_env (OpPreventDuplicates (Some (=))) ints_queue =
     Inr (VError (Some NotComparable), ints_queue)"
    by (simp add: PreventDuplicates_def ints_env_def)
  have 5: "is_error (VError (Some NotComparable) :: int list val)"
    by simp
  from c 1 2 3 4 5 6 7 show ?thesis by blast
qed

subsection \<open>A failed PreventDuplicates\<close>

text \<open>
  C10. Let \<open>q\<close> be a queue that calls have reached from \<open>NewQueue\<close>, and let
  \<open>PreventDuplicates f\<close> return an error on it. Then the call leaves \<open>q\<close> as it was;
  suppression is not active and no function is stored in \<open>q\<close>; and whatever calls
  follow, they run without panic, suppression stays inactive, no function is stored, and
  every \<open>Enqueue\<close> appends its element (there is no function it could call).
\<close>

theorem PreventDuplicates_error_leaves:
  assumes reach: "run E cs NewQueue = Inr (vs, q)"
    and err: "fst (PreventDuplicates E f q) \<noteq> None"
  shows "snd (PreventDuplicates E f q) = q \<and> \<not> preventDuplicates q \<and> equalsFunc q = None \<and>
    (\<forall>cs'. \<exists>vs' q'. run E cs' q = Inr (vs', q') \<and>
       \<not> preventDuplicates q' \<and> equalsFunc q' = None \<and>
       (\<forall>x. Enqueue E x q' = Inr (q'\<lparr>elements := append_slice (newcap E) (elements q') x\<rparr>)))"
proof -
  from err have nc: "\<not> comparable E"
    by (simp add: PreventDuplicates_def split: if_splits)
  have "\<not> preventDuplicates (NewQueue :: 'a Queue)" by (simp add: NewQueue_def)
  from run_not_comparable [OF nc this, of cs] reach
  have q: "\<not> preventDuplicates q" "equalsFunc q = None"
    by (auto simp: NewQueue_def)
  have "\<exists>vs' q'. run E cs' q = Inr (vs', q') \<and>
       \<not> preventDuplicates q' \<and> equalsFunc q' = None \<and>
       (\<forall>x. Enqueue E x q' = Inr (q'\<lparr>elements := append_slice (newcap E) (elements q') x\<rparr>))" for cs'
    using run_not_comparable [OF nc q(1), of cs'] q(2) by (auto simp: Enqueue_plain)
  moreover from nc have "snd (PreventDuplicates E f q) = q"
    by (simp add: PreventDuplicates_def)
  ultimately show ?thesis using q by blast
qed


lemma ints_queue_run: "run ints_env [OpEnqueue [1, 2]] NewQueue = Inr ([VNothing], ints_queue)"
  by (simp add: Enqueue_def NewQueue_def make_slice0_def append_slice_def ints_queue_def
      ints_env_def double_cap_def len_def cap_def)

theorem PreventDuplicates_error_leaves_witness:
  "run ints_env [OpEnqueue [1, 2]] NewQueue = Inr ([VNothing], ints_queue) \<and>
   fst (PreventDuplicates ints_env (Some (=)) ints_queue) \<noteq> None \<and>
   snd (PreventDuplicates ints_env (Some (=)) ints_queue) = ints_queue \<and>
   \<not> preventDuplicates ints_queue \<and>
   Enqueue ints_env [1, 2] ints_queue =
     Inr (ints_queue\<lparr>elements := append_slice (newcap ints_env) (elements ints_queue) [1, 2]\<rparr>)"
proof -
  have e: "fst (PreventDuplicates ints_env (Some (=)) ints_queue) \<noteq> None"
    by (simp add: PreventDuplicates_def ints_env_def)
  from PreventDuplicates_error_leaves [OF ints_queue_run e]
  have a: "snd (PreventDuplicates ints_env (Some (=)) ints_queue) = ints_queue"
    and b: "\<not> preventDuplicates ints_queue"
    and c: "\<forall>cs'. \<exists>vs' q'. run ints_env cs' ints_queue = Inr (vs', q') \<and>
       \<not> preventDuplicates q' \<and> equalsFunc q' = None \<and>
       (\<forall>x. Enqueue ints_env x q' =
          Inr (q'\<lparr>elements := append_slice (newcap ints_env) (elements q') x\<rparr>))"
    by blast+
  from c [rule_format, of "[]"]
  have "Enqueue ints_env [1, 2] ints_queue =
     Inr (ints_queue\<lparr>elements := append_slice (newcap ints_env) (elements ints_queue) [1, 2]\<rparr>)"
    by simp
  with ints_queue_run e a b show ?thesis by blast
qed



section \<open>Properties of Set\<close>

subsection \<open>Size\<close>

lemma fmdom_Add: "fmdom (members (Add x s)) = finsert x (fmdom (members s))"
  by (simp add: Add_def)

lemma fmdom_Remove: "fmdom (members (Remove x s)) = fmdom (members s) |-| {|x|}"
  by (simp add: Remove_def)

lemma Contains_fmdom: "Contains x s = (x |\<in>| fmdom (members s))"
  by (simp add: Contains_def fmdom_notI fmlookup_dom_iff)

lemma Size_Add: "Size (Add x s) = (if Contains x s then Size s else Size s + 1)"
  by (simp add: Size_def fmdom_Add Contains_fmdom fcard_finsert_if)

lemma Size_Remove: "Size (Remove x s) = (if Contains x s then Size s - 1 else Size s)"
proof (cases "Contains x s")
  case True
  then have "x |\<in>| fmdom (members s)" by (simp add: Contains_fmdom)
  then have "fcard (fmdom (members s)) = Suc (fcard (fmdom (members s) |-| {|x|}))"
    by (metis fcard_Suc_fminus1)
  with True show ?thesis by (simp add: Size_def fmdom_Remove)
next
  case False
  then show ?thesis by (simp add: Size_def fmdom_Remove Contains_fmdom)
qed

lemma Size_mutate_all:
  "Size (mutate_all ms s) = Size s + int (length (inserted s ms)) - int (length (removed s ms))"
proof (induction ms arbitrary: s)
  case Nil
  then show ?case by simp
next
  case (Cons m ms)
  then show ?case
    by (cases m) (simp_all add: Size_Add Size_Remove)
qed

lemma Size_NewSet: "Size NewSet = 0"
  by (simp add: Size_def NewSet_def)

lemma Size_Clear: "Size (Clear s) = 0"
  by (simp add: Size_def Clear_def)

lemma never_readded_dom:
  "never_readded gone s ms \<Longrightarrow> fset (fmdom (members s)) = A - set gone \<Longrightarrow> set gone \<subseteq> A \<Longrightarrow>
     fset (fmdom (members (mutate_all ms s))) =
       (A \<union> set (added ms)) - (set gone \<union> set (removed s ms)) \<and>
     set gone \<union> set (removed s ms) \<subseteq> A \<union> set (added ms)"
proof (induction ms arbitrary: s gone A)
  case Nil
  then show ?case by simp
next
  case (Cons m ms)
  show ?case
  proof (cases m)
    case (OpAdd x)
    with Cons.prems have x: "x \<notin> set gone" and n: "never_readded gone (Add x s) ms"
      by simp_all
    from Cons.prems x have d: "fset (fmdom (members (Add x s))) = insert x A - set gone"
      by (auto simp: fmdom_Add)
    from Cons.prems have "set gone \<subseteq> insert x A" by auto
    from Cons.IH [OF n d this] OpAdd show ?thesis by auto
  next
    case (OpRemove x)
    show ?thesis
    proof (cases "Contains x s")
      case True
      with Cons.prems OpRemove have n: "never_readded (x # gone) (Remove x s) ms"
        by simp
      from True Cons.prems have xA: "x \<in> A"
        by (auto simp: Contains_fmdom)
      from Cons.prems have d: "fset (fmdom (members (Remove x s))) = A - set (x # gone)"
        by (auto simp: fmdom_Remove)
      from xA Cons.prems have "set (x # gone) \<subseteq> A" by simp
      from Cons.IH [OF n d this] OpRemove True show ?thesis by auto
    next
      case False
      with Cons.prems OpRemove have n: "never_readded gone (Remove x s) ms"
        by simp
      from False Cons.prems have d: "fset (fmdom (members (Remove x s))) = A - set gone"
        by (auto simp: fmdom_Remove Contains_fmdom)
      from Cons.IH [OF n d Cons.prems(3)] OpRemove False show ?thesis by auto
    qed
  qed
qed

lemma Size_never_readded:
  assumes "never_readded [] s ms" and "members s = fmempty"
  shows "Size (mutate_all ms s) = int (card (set (added ms))) - int (card (set (removed s ms)))"
proof -
  from assms(2) have "fset (fmdom (members s)) = {} - set []" by simp
  from never_readded_dom [OF assms(1) this]
  have d: "fset (fmdom (members (mutate_all ms s))) = set (added ms) - set (removed s ms)"
    and sub: "set (removed s ms) \<subseteq> set (added ms)"
    by simp_all
  have "card (set (added ms) - set (removed s ms)) =
      card (set (added ms)) - card (set (removed s ms))"
    using sub by (simp add: card_Diff_subset)
  moreover have "card (set (removed s ms)) \<le> card (set (added ms))"
    using sub by (simp add: card_mono)
  ultimately show ?thesis
    by (simp add: Size_def fcard.rep_eq d)
qed

text \<open>
  C2, as stated: after any \<open>Add\<close> and \<open>Remove\<close> calls on a new set, \<open>Size\<close> is the
  number of distinct elements added minus the number of distinct elements successfully
  removed. This fails when an element is added again after it was removed: it counts once
  as added and once as removed, and is in the set.
\<close>

theorem Size_distinct_counterexample:
  "Size (mutate_all [OpAdd 1, OpRemove 1, OpAdd 1] (NewSet :: int Set)) = 1 \<and>
   int (card (set (added [OpAdd 1, OpRemove 1, OpAdd (1::int)]))) -
     int (card (set (removed NewSet [OpAdd 1, OpRemove 1, OpAdd (1::int)]))) = 0"
proof -
  have "Contains (1::int) (Add 1 NewSet)" "\<not> Contains (1::int) NewSet"
    "\<not> Contains (1::int) (Remove 1 (Add 1 NewSet))"
    by (simp_all add: Contains_fmdom fmdom_Add fmdom_Remove NewSet_def)
  then show ?thesis
    by (simp add: Size_Add Size_Remove Size_NewSet)
qed

text \<open>
  C2, amended. After any \<open>Add\<close> and \<open>Remove\<close> calls on a set fresh from \<open>NewSet\<close>
  or from \<open>Clear\<close>, \<open>Size\<close> is the number of \<open>Add\<close> calls that put in an element
  not in the set at that time, minus the number of \<open>Remove\<close> calls that took out an
  element in the set at that time. When no element is added again after it was removed,
  this is the number of distinct elements added minus the number of distinct elements
  successfully removed.
\<close>

theorem Size_counts_insertions:
  "Size (mutate_all ms NewSet) =
     int (length (inserted NewSet ms)) - int (length (removed NewSet ms)) \<and>
   Size (mutate_all ms (Clear s)) =
     int (length (inserted (Clear s) ms)) - int (length (removed (Clear s) ms)) \<and>
   (never_readded [] NewSet ms \<longrightarrow>
      Size (mutate_all ms NewSet) =
        int (card (set (added ms))) - int (card (set (removed NewSet ms)))) \<and>
   (never_readded [] (Clear s) ms \<longrightarrow>
      Size (mutate_all ms (Clear s)) =
        int (card (set (added ms))) - int (card (set (removed (Clear s) ms))))"
proof (intro conjI impI)
  show "Size (mutate_all ms NewSet) =
     int (length (inserted NewSet ms)) - int (length (removed NewSet ms))"
    by (simp add: Size_mutate_all Size_NewSet)
  show "Size (mutate_all ms (Clear s)) =
     int (length (inserted (Clear s) ms)) - int (length (removed (Clear s) ms))"
    by (simp add: Size_mutate_all Size_Clear)
  show "Size (mutate_all ms NewSet) =
        int (card (set (added ms))) - int (card (set (removed NewSet ms)))"
    if "never_readded [] NewSet ms"
    using that by (rule Size_never_readded) (simp add: NewSet_def)
  show "Size (mutate_all ms (Clear s)) =
        int (card (set (added ms))) - int (card (set (removed (Clear s) ms)))"
    if "never_readded [] (Clear s) ms"
    using that by (rule Size_never_readded) (simp add: Clear_def)
qed

theorem Size_counts_insertions_witness:
  "never_readded [] NewSet [OpAdd 1, OpAdd 2, OpAdd 1, OpRemove (1::int)] \<and>
   Size (mutate_all [OpAdd 1, OpAdd 2, OpAdd 1, OpRemove 1] (NewSet :: int Set)) = 1 \<and>
   inserted NewSet [OpAdd 1, OpAdd 2, OpAdd 1, OpRemove (1::int)] = [1, 2] \<and>
   removed NewSet [OpAdd 1, OpAdd 2, OpAdd 1, OpRemove (1::int)] = [1] \<and>
   added [OpAdd 1, OpAdd 2, OpAdd 1, OpRemove (1::int)] = [1, 2, 1] \<and>
   never_readded [] (Clear set123) [OpAdd 5] \<and>
   Size (mutate_all [OpAdd 5] (Clear set123)) = 1"
proof -
  have c: "never_readded [] (Clear set123) [OpAdd 5]"
    by simp
  with Size_counts_insertions [of "[OpAdd 5]" set123]
  have s: "Size (mutate_all [OpAdd 5] (Clear set123)) = 1"
    by simp
  have n: "never_readded [] NewSet [OpAdd 1, OpAdd 2, OpAdd 1, OpRemove (1::int)]"
    by simp
  have i: "inserted NewSet [OpAdd 1, OpAdd 2, OpAdd 1, OpRemove (1::int)] = [1, 2]"
    by (simp add: Contains_fmdom fmdom_Add fmdom_Remove) (simp add: NewSet_def)
  have r: "removed NewSet [OpAdd 1, OpAdd 2, OpAdd 1, OpRemove (1::int)] = [1]"
    by (simp add: Contains_fmdom fmdom_Add fmdom_Remove)
  from Size_counts_insertions [of "[OpAdd 1, OpAdd 2, OpAdd 1, OpRemove (1::int)]"] i r
  have "Size (mutate_all [OpAdd 1, OpAdd 2, OpAdd 1, OpRemove 1] (NewSet :: int Set)) = 1"
    by simp
  with n i r c s show ?thesis by simp
qed

subsection \<open>Intersect, Union and Difference leave their arguments alone\<close>

lemma length_Add_at: "length (Add_at p x h) = length h"
  by (simp add: Add_at_def)

lemma nth_Add_at_other: "r \<noteq> p \<Longrightarrow> Add_at p x h ! r = h ! r"
  by (simp add: Add_at_def)

lemma take_Add_at: "n \<le> p \<Longrightarrow> take n (Add_at p x h) = take n h"
  by (simp add: Add_at_def)

lemma Intersect_loop_frame:
  "length (Intersect_loop other result ks h) = length h \<and>
   (\<forall>n \<le> result. take n (Intersect_loop other result ks h) = take n h)"
  by (induction ks arbitrary: h) (simp_all add: length_Add_at take_Add_at)

lemma Union_loop_frame:
  "length (Union_loop result ks h) = length h \<and>
   (\<forall>n \<le> result. take n (Union_loop result ks h) = take n h)"
  by (induction ks arbitrary: h) (simp_all add: length_Add_at take_Add_at)

lemma Difference_loop_frame:
  "length (Difference_loop other result ks h) = length h \<and>
   (\<forall>n \<le> result. take n (Difference_loop other result ks h) = take n h)"
  by (induction ks arbitrary: h) (simp_all add: length_Add_at take_Add_at)

lemma Intersect_fresh:
  "s < length h \<Longrightarrow> other < length h \<Longrightarrow>
   \<exists>r h'. Intersect ks s other h = Some (r, h') \<and> fresh_result h r h'"
  using Intersect_loop_frame [of other "length h" ks "h @ [NewSet]"]
  by (simp add: Intersect_def alloc_NewSet_def fresh_result_def)

lemma Union_fresh:
  "s < length h \<Longrightarrow> other < length h \<Longrightarrow>
   \<exists>r h'. Union_sets ks ks' s other h = Some (r, h') \<and> fresh_result h r h'"
  using Union_loop_frame [of "length h" ks "h @ [NewSet]"]
    Union_loop_frame [of "length h" ks' "Union_loop (length h) ks (h @ [NewSet])"]
  by (simp add: Union_sets_def alloc_NewSet_def fresh_result_def)

lemma Difference_fresh:
  "s < length h \<Longrightarrow> other < length h \<Longrightarrow>
   \<exists>r h'. Difference ks s other h = Some (r, h') \<and> fresh_result h r h'"
  using Difference_loop_frame [of other "length h" ks "h @ [NewSet]"]
  by (simp add: Difference_def alloc_NewSet_def fresh_result_def)

lemma fresh_result_nth: "fresh_result h r h' \<Longrightarrow> p < length h \<Longrightarrow> h' ! p = h ! p"
  by (metis fresh_result_def nth_take)


lemma lookups234:
  "fmlookup (members set234) 1 = None" "fmlookup (members set234) 2 = Some ()"
  "fmlookup (members set234) 3 = Some ()" "fmlookup (members set234) 4 = Some ()"
  by (simp_all add: set234_def Add_def NewSet_def)

lemma sample_Intersect: "Intersect [1, 2, 3] 0 1 sample_store = Some (2, store_i)"
  by (simp add: Intersect_def alloc_NewSet_def sample_store_def store_i_def Add_at_def lookups234)

lemma sample_Difference: "Difference [3, 1, 2] 0 1 store_i = Some (3, store_d)"
  by (simp add: Difference_def alloc_NewSet_def store_d_def store_i_def Add_at_def lookups234)

lemma sample_Union: "Union_sets [1, 2, 3] [2, 3, 4] 0 1 sample_store = Some (2, store_u)"
  by (simp add: Union_sets_def alloc_NewSet_def sample_store_def store_u_def Add_at_def)

text \<open>
  C8. For sets at \<open>s\<close> and \<open>other\<close> in the store (the same set or two), \<open>Intersect\<close>,
  \<open>Union\<close> and \<open>Difference\<close> each return a pointer that no set had before the call,
  to one newly allocated set; every set that was in the store, the two arguments among
  them, is as it was. The new set is apart from the old ones: an \<open>Add\<close> to it leaves
  them alone, and an \<open>Add\<close> to one of them leaves it alone. This holds whatever the
  order of the loops.
\<close>

theorem set_algebra_fresh:
  assumes "s < length h" and "other < length h"
  shows "(\<exists>r h'. Intersect ks s other h = Some (r, h') \<and> fresh_result h r h' \<and>
            members (h' ! s) = members (h ! s) \<and> members (h' ! other) = members (h ! other)) \<and>
         (\<exists>r h'. Union_sets ks ks' s other h = Some (r, h') \<and> fresh_result h r h' \<and>
            members (h' ! s) = members (h ! s) \<and> members (h' ! other) = members (h ! other)) \<and>
         (\<exists>r h'. Difference ks s other h = Some (r, h') \<and> fresh_result h r h' \<and>
            members (h' ! s) = members (h ! s) \<and> members (h' ! other) = members (h ! other)) \<and>
         (\<forall>r h'. fresh_result h r h' \<longrightarrow>
            (\<forall>p x. p < length h \<longrightarrow> Add_at r x h' ! p = h ! p \<and> Add_at p x h' ! r = h' ! r))"
proof (intro conjI allI impI)
  from Intersect_fresh [OF assms, of ks] fresh_result_nth assms
  show "\<exists>r h'. Intersect ks s other h = Some (r, h') \<and> fresh_result h r h' \<and>
      members (h' ! s) = members (h ! s) \<and> members (h' ! other) = members (h ! other)"
    by metis
  from Union_fresh [OF assms, of ks ks'] fresh_result_nth assms
  show "\<exists>r h'. Union_sets ks ks' s other h = Some (r, h') \<and> fresh_result h r h' \<and>
      members (h' ! s) = members (h ! s) \<and> members (h' ! other) = members (h ! other)"
    by metis
  from Difference_fresh [OF assms, of ks] fresh_result_nth assms
  show "\<exists>r h'. Difference ks s other h = Some (r, h') \<and> fresh_result h r h' \<and>
      members (h' ! s) = members (h ! s) \<and> members (h' ! other) = members (h ! other)"
    by metis
next
  fix r h' p x
  assume f: "fresh_result h r h'" and p: "p < length h"
  then have "p \<noteq> r" by (simp add: fresh_result_def)
  with fresh_result_nth [OF f p]
  show "Add_at r x h' ! p = h ! p" and "Add_at p x h' ! r = h' ! r"
    by (simp_all add: nth_Add_at_other)
qed

theorem set_algebra_fresh_witness:
  "0 < length sample_store \<and> 1 < length sample_store \<and>
   Intersect [1, 2, 3] 0 1 sample_store = Some (2, store_i) \<and>
   Union_sets [1, 2, 3] [2, 3, 4] 0 1 sample_store = Some (2, store_u) \<and>
   fresh_result sample_store 2 store_i \<and> fresh_result sample_store 2 store_u \<and>
   members (store_i ! 0) = members (sample_store ! 0) \<and>
   members (store_u ! 1) = members (sample_store ! 1) \<and>
   (\<exists>r h'. Difference [1, 2, 3] 0 0 sample_store = Some (r, h') \<and>
      fresh_result sample_store r h') \<and>
   Add_at 2 9 store_i ! 0 = sample_store ! 0 \<and> Add_at 0 9 store_i ! 2 = store_i ! 2"
proof -
  have l0: "0 < length sample_store"
    by (simp add: sample_store_def)
  from set_algebra_fresh [OF l0 l0, of "[1, 2, 3]"]
  have d: "\<exists>r h'. Difference [1, 2, 3] 0 0 sample_store = Some (r, h') \<and>
      fresh_result sample_store r h'"
    by blast
  have l: "0 < length sample_store" "1 < length sample_store"
    by (simp_all add: sample_store_def)
  from set_algebra_fresh [OF l, of "[1, 2, 3]" "[2, 3, 4]"] sample_Intersect sample_Union
  have "fresh_result sample_store 2 store_i \<and> fresh_result sample_store 2 store_u \<and>
    members (store_i ! 0) = members (sample_store ! 0) \<and>
    members (store_u ! 1) = members (sample_store ! 1)"
    by simp
  moreover from this set_algebra_fresh [OF l] l
  have "Add_at 2 9 store_i ! 0 = sample_store ! 0 \<and> Add_at 0 9 store_i ! 2 = store_i ! 2"
    by blast
  ultimately show ?thesis using l d sample_Intersect sample_Union by simp
qed

subsection \<open>The partition law\<close>

lemma nth_Add_at_same: "p < length h \<Longrightarrow> Add_at p x h ! p = Add x (h ! p)"
  by (simp add: Add_at_def)

lemma lookup_fmdom: "(fmlookup m k \<noteq> None) = (k |\<in>| fmdom m)"
  by (simp add: fmlookup_dom_iff)

lemma Intersect_loop_members:
  "result < length h \<Longrightarrow> other \<noteq> result \<Longrightarrow>
   fmdom (members (Intersect_loop other result ks h ! result)) =
     fmdom (members (h ! result)) |\<union>| (fset_of_list ks |\<inter>| fmdom (members (h ! other)))"
proof (induction ks arbitrary: h)
  case Nil
  then show ?case by simp
next
  case (Cons k ks)
  show ?case
  proof (cases "k |\<in>| fmdom (members (h ! other))")
    case True
    let ?h = "Add_at result k h"
    from True have l: "fmlookup (members (h ! other)) k \<noteq> None"
      by (simp only: lookup_fmdom)
    from Cons.prems have "result < length ?h" by (simp add: length_Add_at)
    from Cons.IH [OF this Cons.prems(2)]
    have "fmdom (members (Intersect_loop other result ks ?h ! result)) =
      finsert k (fmdom (members (h ! result))) |\<union>|
        (fset_of_list ks |\<inter>| fmdom (members (h ! other)))"
      using Cons.prems by (simp add: nth_Add_at_same nth_Add_at_other fmdom_Add)
    with l True show ?thesis by simp
  next
    case False
    then have l: "fmlookup (members (h ! other)) k = None"
      by (rule fmdom_notD)
    from Cons.IH [OF Cons.prems] l False show ?thesis by simp
  qed
qed

lemma Difference_loop_members:
  "result < length h \<Longrightarrow> other \<noteq> result \<Longrightarrow>
   fmdom (members (Difference_loop other result ks h ! result)) =
     fmdom (members (h ! result)) |\<union>| (fset_of_list ks |-| fmdom (members (h ! other)))"
proof (induction ks arbitrary: h)
  case Nil
  then show ?case by simp
next
  case (Cons k ks)
  show ?case
  proof (cases "k |\<in>| fmdom (members (h ! other))")
    case False
    let ?h = "Add_at result k h"
    from False have l: "fmlookup (members (h ! other)) k = None"
      by (rule fmdom_notD)
    from Cons.prems have "result < length ?h" by (simp add: length_Add_at)
    from Cons.IH [OF this Cons.prems(2)]
    have "fmdom (members (Difference_loop other result ks ?h ! result)) =
      finsert k (fmdom (members (h ! result))) |\<union>|
        (fset_of_list ks |-| fmdom (members (h ! other)))"
      using Cons.prems by (simp add: nth_Add_at_same nth_Add_at_other fmdom_Add)
    with l False show ?thesis by auto
  next
    case True
    then have l: "fmlookup (members (h ! other)) k \<noteq> None"
      by (simp only: lookup_fmdom)
    from Cons.IH [OF Cons.prems] l True show ?thesis by simp
  qed
qed

lemma Union_loop_members:
  "result < length h \<Longrightarrow>
   fmdom (members (Union_loop result ks h ! result)) =
     fmdom (members (h ! result)) |\<union>| fset_of_list ks"
proof (induction ks arbitrary: h)
  case Nil
  then show ?case by simp
next
  case (Cons k ks)
  let ?h = "Add_at result k h"
  from Cons.prems have "result < length ?h" by (simp add: length_Add_at)
  from Cons.IH [OF this] Cons.prems show ?case
    by (simp add: nth_Add_at_same fmdom_Add)
qed

lemma Intersect_members:
  assumes "range_order (members (h ! s)) ks" and "Intersect ks s other h = Some (r, h')"
  shows "fmdom (members (h' ! r)) = fmdom (members (h ! s)) |\<inter>| fmdom (members (h ! other))"
proof -
  from assms(2) have v: "s < length h" "other < length h"
    and r: "r = length h" and h': "h' = Intersect_loop other (length h) ks (h @ [NewSet])"
    by (auto simp: Intersect_def alloc_NewSet_def split: if_splits)
  from v have "other \<noteq> length h" by simp
  from Intersect_loop_members [of "length h" "h @ [NewSet]" other ks, OF _ this] v assms(1)
  show ?thesis
    by (simp add: r h' nth_append NewSet_def range_order_def)
qed

lemma Difference_members:
  assumes "range_order (members (h ! s)) ks" and "Difference ks s other h = Some (r, h')"
  shows "fmdom (members (h' ! r)) = fmdom (members (h ! s)) |-| fmdom (members (h ! other))"
proof -
  from assms(2) have v: "s < length h" "other < length h"
    and r: "r = length h" and h': "h' = Difference_loop other (length h) ks (h @ [NewSet])"
    by (auto simp: Difference_def alloc_NewSet_def split: if_splits)
  from v have "other \<noteq> length h" by simp
  from Difference_loop_members [of "length h" "h @ [NewSet]" other ks, OF _ this] v assms(1)
  show ?thesis
    by (simp add: r h' nth_append NewSet_def range_order_def)
qed

lemma Members_loop_append: "Members_loop ks ms = ms @ ks"
  by (induction ks arbitrary: ms) simp_all

lemma Members_length: "Members s ms \<Longrightarrow> length ms = fcard (fmdom (members s))"
proof -
  assume "Members s ms"
  then obtain ks where "range_order (members s) ks" and "ms = Members_loop ks []"
    by (auto simp: Members_def)
  then have "distinct ms" and "fset_of_list ms = fmdom (members s)"
    by (simp_all add: range_order_def Members_loop_append)
  then have "fcard (fmdom (members s)) = card (set ms)"
    by (simp add: fcard.rep_eq fset_of_list.rep_eq [symmetric])
  with \<open>distinct ms\<close> show ?thesis
    by (simp add: distinct_card)
qed

lemma fcard_partition: "fcard (A |\<inter>| B) + fcard (A |-| B) = fcard A"
proof -
  have "finite (fset A)" by simp
  then have "card (fset A \<inter> fset B) + card (fset A - fset B) = card (fset A)"
    by (rule card_Int_Diff [symmetric])
  then show ?thesis by (simp add: fcard.rep_eq)
qed

lemma range_order_set123: "range_order (members set123) [1, 2, 3]" "range_order (members set123) [3, 1, 2]"
  by (auto simp: range_order_def set123_def Add_def NewSet_def)

lemma sample_Members:
  "Members (store_d ! 2) [2, 3]" "Members (store_d ! 3) [1]" "Members (store_d ! 0) [2, 3, 1]"
proof -
  have "range_order (members (store_d ! 2)) [2, 3]" "range_order (members (store_d ! 3)) [1]"
    "range_order (members (store_d ! 0)) [2, 3, 1]"
    by (auto simp: range_order_def store_d_def set123_def Add_def NewSet_def)
  then show "Members (store_d ! 2) [2, 3]" "Members (store_d ! 3) [1]"
    "Members (store_d ! 0) [2, 3, 1]"
    unfolding Members_def by (force simp: Members_loop_append)+
qed

text \<open>
  C6. For a set \<open>A\<close> (at \<open>s\<close>) and a set \<open>B\<close> (at \<open>other\<close>): take \<open>A.Intersect(B)\<close>
  and then \<open>A.Difference(B)\<close>. Whatever slices \<open>Members\<close> returns for the two results
  and for \<open>A\<close>, the lengths of the first two add up to the length of the third.
\<close>

theorem partition_law:
  assumes "range_order (members (h ! s)) ks" and "Intersect ks s other h = Some (ri, h1)"
    and "range_order (members (h1 ! s)) ks'" and "Difference ks' s other h1 = Some (rd, h2)"
    and "Members (h2 ! ri) mi" and "Members (h2 ! rd) md" and "Members (h2 ! s) ma"
  shows "length mi + length md = length ma"
proof -
  from assms(2) have v: "s < length h" "other < length h"
    by (auto simp: Intersect_def split: if_splits)
  from Intersect_fresh [OF v, of ks] assms(2) have f1: "fresh_result h ri h1" by simp
  then have v1: "s < length h1" "other < length h1" "ri < length h1"
    using v by (simp_all add: fresh_result_def)
  from Difference_fresh [OF v1(1,2), of ks'] assms(4) have f2: "fresh_result h1 rd h2" by simp
  have s1: "h1 ! s = h ! s" "h1 ! other = h ! other"
    using fresh_result_nth [OF f1] v by simp_all
  have s2: "h2 ! s = h ! s" "h2 ! ri = h1 ! ri"
    using fresh_result_nth [OF f2] v1 s1 by simp_all
  have i: "fmdom (members (h1 ! ri)) = fmdom (members (h ! s)) |\<inter>| fmdom (members (h ! other))"
    using Intersect_members [OF assms(1,2)] by simp
  have d: "fmdom (members (h2 ! rd)) = fmdom (members (h ! s)) |-| fmdom (members (h ! other))"
    using Difference_members [OF assms(3,4)] s1 by simp
  from Members_length [OF assms(5)] Members_length [OF assms(6)] Members_length [OF assms(7)]
  show ?thesis
    by (simp add: i d s2 fcard_partition)
qed

theorem partition_law_witness:
  "range_order (members (sample_store ! 0)) [1, 2, 3] \<and>
   Intersect [1, 2, 3] 0 1 sample_store = Some (2, store_i) \<and>
   range_order (members (store_i ! 0)) [3, 1, 2] \<and>
   Difference [3, 1, 2] 0 1 store_i = Some (3, store_d) \<and>
   Members (store_d ! 2) [2, 3] \<and> Members (store_d ! 3) [1] \<and> Members (store_d ! 0) [2, 3, 1] \<and>
   length [2, 3 :: int] + length [1 :: int] = length [2, 3, 1 :: int]"
proof -
  have a: "range_order (members (sample_store ! 0)) [1, 2, 3]"
    and b: "range_order (members (store_i ! 0)) [3, 1, 2]"
    using range_order_set123 by (simp_all add: sample_store_def store_i_def)
  from partition_law [OF a sample_Intersect b sample_Difference sample_Members]
  have "length [2, 3 :: int] + length [1 :: int] = length [2, 3, 1 :: int]" .
  with a b sample_Intersect sample_Difference sample_Members show ?thesis by blast
qed

end
